theory Spec2Isabelle
  imports Main "HOL-Library.Word"
begin

unbundle bit_operations_syntax

section \<open>The view representation of \<^verbatim>\<open>bev::basic_string_view\<close>\<close>

text \<open>
  The header supports 64-bit \<^verbatim>\<open>size_t\<close> only, so \<^verbatim>\<open>size_type\<close> is a 64-bit word and
  \<^verbatim>\<open>sizeof(size_t)\<close> is 8. A \<^verbatim>\<open>const CharT*\<close> is the address of a character, counted in
  characters; the characters a view refers to live in a memory that the view does not own,
  so every operation that reads through the pointer takes that memory as an argument.
  \<^verbatim>\<open>int\<close> is a 32-bit word read with \<open>sint\<close>, \<^verbatim>\<open>ptrdiff_t\<close> a 64-bit word read with \<open>sint\<close>.
  The members \<^verbatim>\<open>len_\<close> and \<^verbatim>\<open>str_\<close> are the fields \<open>len\<close> and \<open>str\<close>: an identifier
  cannot end in an underscore here.
\<close>

type_synonym size_type = "64 word"
type_synonym c_int = "32 word"
type_synonym pointer = nat
type_synonym 'c memory = "pointer \<Rightarrow> 'c"

record basic_string_view =
  len :: size_type
  str :: pointer

datatype error = out_of_range

definition sizeof_size_t :: nat where
  "sizeof_size_t = 8"

definition nullptr :: pointer where
  "nullptr = 0"

definition npos :: size_type where
  "npos = - 1"

definition safederef_flag_mask :: size_type where
  "safederef_flag_mask = push_bit (sizeof_size_t - 1) 1"

definition set_safederef_bit :: "size_type \<Rightarrow> size_type" where
  "set_safederef_bit x = x OR safederef_flag_mask"

definition clear_safederef_bit :: "size_type \<Rightarrow> size_type" where
  "clear_safederef_bit x = x AND NOT safederef_flag_mask"

definition test_safederef_bit :: "size_type \<Rightarrow> bool" where
  "test_safederef_bit x = (x AND safederef_flag_mask \<noteq> 0)"

subsection \<open>Construction\<close>

text \<open>
  \<^verbatim>\<open>traits_type::length\<close> belongs to the standard library: the generic \<^verbatim>\<open>std::char_traits\<close>
  counts characters up to the first one equal to \<^verbatim>\<open>CharT()\<close>. The scan has no bound, so it
  is a partial function: \<open>None\<close> is a scan that never meets a terminator.
\<close>

partial_function (option) traits_length_from :: "('c::zero) memory \<Rightarrow> pointer \<Rightarrow> size_type \<Rightarrow> size_type option" where
  "traits_length_from mem p i =
     (if mem (p + unat i) = 0 then Some i else traits_length_from mem p (i + 1))"

declare traits_length_from.simps [code]

definition traits_length :: "('c::zero) memory \<Rightarrow> pointer \<Rightarrow> size_type option" where
  "traits_length mem p = traits_length_from mem p 0"

definition sv_default :: basic_string_view where
  "sv_default = \<lparr>len = 0, str = nullptr\<rparr>"

definition sv_cstr :: "('c::zero) memory \<Rightarrow> pointer \<Rightarrow> basic_string_view option" where
  "sv_cstr mem s =
     (case traits_length mem s of
        None \<Rightarrow> None
      | Some n \<Rightarrow> Some \<lparr>len = set_safederef_bit n, str = s\<rparr>)"

definition sv_ptr_len :: "pointer \<Rightarrow> size_type \<Rightarrow> basic_string_view" where
  "sv_ptr_len s l = \<lparr>len = l, str = s\<rparr>"

definition sv_can_test_safederef :: "pointer \<Rightarrow> size_type \<Rightarrow> basic_string_view" where
  "sv_can_test_safederef s l = \<lparr>len = set_safederef_bit l, str = s\<rparr>"

subsection \<open>Capacity, element access and the non-standard interface\<close>

definition length_sv :: "basic_string_view \<Rightarrow> size_type" where
  "length_sv v = clear_safederef_bit (len v)"

definition size_sv :: "basic_string_view \<Rightarrow> size_type" where
  "size_sv v = length_sv v"

definition empty :: "basic_string_view \<Rightarrow> bool" where
  "empty v = (length_sv v = 0)"

text \<open>\<^verbatim>\<open>max_size()\<close>; \<^verbatim>\<open>sizeof(value_type)\<close> comes with the instantiation, \<^verbatim>\<open>sizeof(void*)\<close> is 8.\<close>

definition max_size :: "nat \<Rightarrow> size_type" where
  "max_size sizeof_value_type =
     (npos - of_nat sizeof_size_t - 8) div of_nat sizeof_value_type div 4"

definition data :: "basic_string_view \<Rightarrow> pointer" where
  "data v = str v"

definition end_sv :: "basic_string_view \<Rightarrow> pointer" where
  "end_sv v = str v + unat (length_sv v)"

definition at :: "'c memory \<Rightarrow> basic_string_view \<Rightarrow> size_type \<Rightarrow> error + 'c" where
  "at mem v pos =
     (if pos \<ge> length_sv v then Inl out_of_range else Inr (mem (str v + unat pos)))"

definition is_cstring :: "('c::zero) memory \<Rightarrow> basic_string_view \<Rightarrow> bool" where
  "is_cstring mem v =
     (if test_safederef_bit (len v) then mem (str v + unat (length_sv v)) \<noteq> 0 else False)"

subsection \<open>Modifiers\<close>

text \<open>
  Both modifiers subtract from \<^verbatim>\<open>this->length()\<close>. \<^verbatim>\<open>length()\<close> returns its result by value, so
  the subtraction is applied to that temporary and the member \<^verbatim>\<open>len_\<close> is never assigned:
  the only member either function writes is \<^verbatim>\<open>str_\<close>, in \<^verbatim>\<open>remove_prefix\<close>.
\<close>

definition remove_prefix :: "basic_string_view \<Rightarrow> size_type \<Rightarrow> basic_string_view" where
  "remove_prefix v n =
     (let v1 = v\<lparr>str := str v + unat n\<rparr>;
          tmp = length_sv v1 - n
      in v1)"

definition remove_suffix :: "basic_string_view \<Rightarrow> size_type \<Rightarrow> basic_string_view" where
  "remove_suffix v n = (let tmp = length_sv v - n in v)"

subsection \<open>Slicing\<close>

text \<open>
  \<^verbatim>\<open>substr\<close> is declared \<^verbatim>\<open>noexcept(false)\<close>, so its result is a sum; the body has no
  \<^verbatim>\<open>throw\<close>, and every path ends in one of the two constructors.
\<close>

definition substr :: "basic_string_view \<Rightarrow> size_type \<Rightarrow> size_type \<Rightarrow> error + basic_string_view" where
  "substr v pos n =
     (let rlen = min n (length_sv v - pos)
      in if test_safederef_bit (len v)
         then Inr (sv_can_test_safederef (str v + unat pos) rlen)
         else Inr (sv_ptr_len (str v + unat pos) rlen))"

section \<open>Comparison\<close>

text \<open>
  \<^verbatim>\<open>traits_type::compare\<close> is a member of the template argument \<^verbatim>\<open>Traits\<close>
  (\<^verbatim>\<open>std::char_traits<CharT>\<close> unless the instantiation names another), so it is a
  parameter \<open>tc\<close> of every operation that calls it: \<open>tc mem s1 s2 n\<close> is the \<^verbatim>\<open>int\<close> that
  \<^verbatim>\<open>traits_type::compare(s1, s2, n)\<close> returns. \<^verbatim>\<open>traits_type::eq\<close> is equality of characters.
\<close>

type_synonym 'c traits_compare = "'c memory \<Rightarrow> pointer \<Rightarrow> pointer \<Rightarrow> nat \<Rightarrow> c_int"

text \<open>
  What the C++ standard requires of \<^verbatim>\<open>char_traits::compare\<close>, and all it requires: the
  answer is zero when the \<open>n\<close> characters are pairwise equal, negative when the first
  character that differs is the smaller one in the first range, positive when it is the
  larger one. The size of a non-zero answer is left open (for \<^verbatim>\<open>char\<close> it is what
  \<^verbatim>\<open>memcmp\<close> returns).
\<close>

definition traits_compare_ok :: "('c::linorder) traits_compare \<Rightarrow> bool" where
  "traits_compare_ok tc \<longleftrightarrow>
     (\<forall>mem s1 s2 n.
        ((\<forall>k<n. mem (s1 + k) = mem (s2 + k)) \<longrightarrow> tc mem s1 s2 n = 0)
        \<and> (\<forall>k<n. (\<forall>j<k. mem (s1 + j) = mem (s2 + j)) \<and> mem (s1 + k) < mem (s2 + k)
              \<longrightarrow> sint (tc mem s1 s2 n) < 0)
        \<and> (\<forall>k<n. (\<forall>j<k. mem (s1 + j) = mem (s2 + j)) \<and> mem (s2 + k) < mem (s1 + k)
              \<longrightarrow> 0 < sint (tc mem s1 s2 n)))"

text \<open>
  Implementations of \<^verbatim>\<open>char_traits::compare\<close> that walk both ranges and answer \<open>lo\<close> or
  \<open>hi\<close> at the first position where the characters are ordered. The generic
  \<^verbatim>\<open>std::char_traits\<close> of libstdc++ is \<open>char_traits_compare (- 1) 1\<close>.
\<close>

fun char_traits_compare :: "c_int \<Rightarrow> c_int \<Rightarrow> ('c::linorder) traits_compare" where
  "char_traits_compare lo hi mem s1 s2 0 = 0"
| "char_traits_compare lo hi mem s1 s2 (Suc n) =
     (if mem s1 < mem s2 then lo
      else if mem s2 < mem s1 then hi
      else char_traits_compare lo hi mem (Suc s1) (Suc s2) n)"

definition int_max :: int where
  "int_max = 2147483647"

definition int_min :: int where
  "int_min = - 2147483648"

definition s_compare :: "size_type \<Rightarrow> size_type \<Rightarrow> c_int" where
  "s_compare n1 n2 =
     (let diff = n1 - n2
      in if sint diff > int_max then word_of_int int_max
         else if sint diff < int_min then word_of_int int_min
         else word_of_int (sint diff))"

definition compare :: "('c::linorder) traits_compare \<Rightarrow> 'c memory \<Rightarrow> basic_string_view \<Rightarrow>
    basic_string_view \<Rightarrow> c_int" where
  "compare tc mem v s =
     (let rlen = min (length_sv v) (length_sv s);
          ret = tc mem (str v) (str s) (unat rlen)
      in if ret = 0 then s_compare (length_sv v) (length_sv s) else ret)"

text \<open>The overloads on sub-ranges: \<^verbatim>\<open>compare(pos1, n1, str)\<close> and \<^verbatim>\<open>compare(pos1, n1, str, pos2, n2)\<close>.\<close>

definition compare_pos :: "('c::linorder) traits_compare \<Rightarrow> 'c memory \<Rightarrow> basic_string_view \<Rightarrow>
    size_type \<Rightarrow> size_type \<Rightarrow> basic_string_view \<Rightarrow> error + c_int" where
  "compare_pos tc mem v pos1 n1 s =
     (case substr v pos1 n1 of
        Inl e \<Rightarrow> Inl e
      | Inr u \<Rightarrow> Inr (compare tc mem u s))"

definition compare_pos2 :: "('c::linorder) traits_compare \<Rightarrow> 'c memory \<Rightarrow> basic_string_view \<Rightarrow>
    size_type \<Rightarrow> size_type \<Rightarrow> basic_string_view \<Rightarrow> size_type \<Rightarrow> size_type \<Rightarrow> error + c_int" where
  "compare_pos2 tc mem v pos1 n1 s pos2 n2 =
     (case substr v pos1 n1 of
        Inl e \<Rightarrow> Inl e
      | Inr u \<Rightarrow> (case substr s pos2 n2 of
                   Inl e \<Rightarrow> Inl e
                 | Inr w \<Rightarrow> Inr (compare tc mem u w)))"

section \<open>Searching\<close>

text \<open>
  The \<^verbatim>\<open>for\<close> loop of \<^verbatim>\<open>find(const CharT*, size_type, size_type)\<close>. Taken alone it need not end
  (\<^verbatim>\<open>++pos\<close> wraps around when \<^verbatim>\<open>length() - n\<close> is the largest position), so it is a partial
  function; \<open>None\<close> is a loop that runs forever.
\<close>

partial_function (option) find_loop :: "('c::linorder) traits_compare \<Rightarrow> 'c memory \<Rightarrow> basic_string_view \<Rightarrow>
    pointer \<Rightarrow> size_type \<Rightarrow> size_type \<Rightarrow> size_type option" where
  "find_loop tc mem v s n pos =
     (if pos \<le> length_sv v - n
      then (if mem (str v + unat pos) = mem s
               \<and> tc mem (str v + unat pos + 1) (s + 1) (unat (n - 1)) = 0
            then Some pos
            else find_loop tc mem v s n (pos + 1))
      else Some npos)"

declare find_loop.simps [code]

definition find_buf :: "('c::linorder) traits_compare \<Rightarrow> 'c memory \<Rightarrow> basic_string_view \<Rightarrow> pointer \<Rightarrow>
    size_type \<Rightarrow> size_type \<Rightarrow> size_type option" where
  "find_buf tc mem v s pos n =
     (if n = 0 then Some (if pos \<le> length_sv v then pos else npos)
      else if n \<le> length_sv v then find_loop tc mem v s n pos
      else Some npos)"

definition find_sv :: "('c::linorder) traits_compare \<Rightarrow> 'c memory \<Rightarrow> basic_string_view \<Rightarrow>
    basic_string_view \<Rightarrow> size_type \<Rightarrow> size_type option" where
  "find_sv tc mem v s pos = find_buf tc mem v (str s) pos (length_sv s)"

text \<open>
  What \<^verbatim>\<open>find\<close> is specified to look for, in the words of its description and not from
  the code: the \<open>n\<close> characters at \<open>s\<close> occur in the view \<open>v\<close> at index \<open>i\<close> when the range
  \<open>[i, i + n)\<close> lies inside the view and holds the same characters.
\<close>

definition spec_occurs_at :: "'c memory \<Rightarrow> basic_string_view \<Rightarrow> pointer \<Rightarrow> size_type \<Rightarrow> size_type \<Rightarrow> bool" where
  "spec_occurs_at mem v s n i \<longleftrightarrow>
     unat i + unat n \<le> unat (length_sv v)
     \<and> (\<forall>k\<in>{0..<unat n}. mem (str v + unat i + k) = mem (s + k))"

section \<open>Hashing\<close>

text \<open>
  \<^verbatim>\<open>hash_bytes_\<close> reads raw bytes through a \<^verbatim>\<open>const char*\<close>, so it works on a memory of bytes
  addressed in bytes. \<^verbatim>\<open>unaligned_load_\<close> copies eight bytes into a \<^verbatim>\<open>size_t\<close>; on the
  little-endian 64-bit targets of the header the byte at the lowest address is the least
  significant one. (Names here drop the trailing underscore of the source.)
\<close>

type_synonym byte_memory = "nat \<Rightarrow> 8 word"

definition unaligned_load :: "byte_memory \<Rightarrow> nat \<Rightarrow> 64 word" where
  "unaligned_load bm p =
     ucast (bm p) OR push_bit 8 (ucast (bm (p + 1))) OR push_bit 16 (ucast (bm (p + 2)))
       OR push_bit 24 (ucast (bm (p + 3))) OR push_bit 32 (ucast (bm (p + 4)))
       OR push_bit 40 (ucast (bm (p + 5))) OR push_bit 48 (ucast (bm (p + 6)))
       OR push_bit 56 (ucast (bm (p + 7)))"

text \<open>The \<^verbatim>\<open>do ... while (--n >= 0)\<close> loop of \<^verbatim>\<open>load_bytes_\<close>, entered after the first \<^verbatim>\<open>--n\<close>.\<close>

function load_bytes_loop :: "byte_memory \<Rightarrow> nat \<Rightarrow> int \<Rightarrow> 64 word \<Rightarrow> 64 word" where
  "load_bytes_loop bm p n result =
     (let result' = push_bit 8 result + ucast (bm (nat (int p + n)));
          n' = n - 1
      in if n' \<ge> 0 then load_bytes_loop bm p n' result' else result')"
  by pat_completeness auto
termination
  by (relation "measure (\<lambda>(bm, p, n, result). nat n)") auto

declare load_bytes_loop.simps [simp del]

definition load_bytes :: "byte_memory \<Rightarrow> nat \<Rightarrow> int \<Rightarrow> 64 word" where
  "load_bytes bm p n = load_bytes_loop bm p (n - 1) 0"

definition shift_mix :: "64 word \<Rightarrow> 64 word" where
  "shift_mix v = v XOR drop_bit 47 v"

definition mul :: "64 word" where
  "mul = push_bit 32 0xc6a4a793 + 0x5bd1e995"

text \<open>
  The main loop of \<^verbatim>\<open>hash_bytes_\<close> runs while \<^verbatim>\<open>p != end\<close>; taken alone that test need not
  ever fail, so the loop is a partial function.
\<close>

partial_function (option) hash_loop :: "byte_memory \<Rightarrow> nat \<Rightarrow> nat \<Rightarrow> 64 word \<Rightarrow> 64 word option" where
  "hash_loop bm p e hash =
     (if p \<noteq> e
      then (let data = shift_mix (unaligned_load bm p * mul) * mul
            in hash_loop bm (p + 8) e ((hash XOR data) * mul))
      else Some hash)"

declare hash_loop.simps [code]

definition hash_bytes :: "byte_memory \<Rightarrow> nat \<Rightarrow> 64 word \<Rightarrow> 64 word \<Rightarrow> 64 word option" where
  "hash_bytes bm ptr l seed =
     (let buf = ptr;
          len_aligned = l AND NOT 7;
          e = buf + unat len_aligned
      in case hash_loop bm buf e (seed XOR (l * mul)) of
           None \<Rightarrow> None
         | Some hash \<Rightarrow>
             (let hash1 = (if l AND 7 \<noteq> 0
                           then (hash XOR load_bytes bm e (uint (l AND 7))) * mul
                           else hash);
                  hash2 = shift_mix hash1 * mul
              in Some (shift_mix hash2)))"

text \<open>
  \<^verbatim>\<open>std::hash<bev::basic_string_view<CharT>>\<close> hashes the \<^verbatim>\<open>length() * sizeof(CharT)\<close> bytes at
  \<^verbatim>\<open>str_\<close>. \<^verbatim>\<open>sizeof(CharT)\<close> and the object representation of a character (\<open>repr c j\<close> is
  byte \<open>j\<close> of \<open>c\<close>) come with the instantiation and are parameters. The call passes two
  arguments to the three-parameter \<^verbatim>\<open>hash_bytes_\<close>; the seed it leaves out is a parameter too.
\<close>

definition byte_image :: "nat \<Rightarrow> ('c \<Rightarrow> nat \<Rightarrow> 8 word) \<Rightarrow> 'c memory \<Rightarrow> byte_memory" where
  "byte_image sizeof_CharT repr mem a = repr (mem (a div sizeof_CharT)) (a mod sizeof_CharT)"

definition hash_sv :: "nat \<Rightarrow> ('c \<Rightarrow> nat \<Rightarrow> 8 word) \<Rightarrow> 'c memory \<Rightarrow> 64 word \<Rightarrow> basic_string_view \<Rightarrow>
    64 word option" where
  "hash_sv sizeof_CharT repr mem seed v =
     hash_bytes (byte_image sizeof_CharT repr mem) (sizeof_CharT * str v)
       (length_sv v * of_nat sizeof_CharT) seed"

section \<open>Test buffers\<close>

text \<open>A memory that holds the characters \<open>xs\<close> from address \<open>base\<close> on and zero elsewhere.\<close>

definition buffer_at :: "pointer \<Rightarrow> ('c::zero) list \<Rightarrow> 'c memory" where
  "buffer_at base xs a = (if base \<le> a \<and> a < base + length xs then xs ! (a - base) else 0)"

definition abc :: "8 word list" where
  "abc = [97, 98, 99, 0]"

text \<open>The view that the constructor from a null-terminated buffer builds over \<open>abc\<close> at address 16.\<close>

definition abc_view :: basic_string_view where
  "abc_view = \<lparr>len = 131, str = 16\<rparr>"

section \<open>Properties of the view representation\<close>

lemma safederef_flag_mask_eq: "safederef_flag_mask = 128"
  by (simp add: safederef_flag_mask_def sizeof_size_t_def)

lemma safederef_flag_mask_pow: "safederef_flag_mask = 2 ^ 7"
  by (simp add: safederef_flag_mask_def sizeof_size_t_def)

lemma test_safederef_bit_iff: "test_safederef_bit x \<longleftrightarrow> bit x 7"
  unfolding test_safederef_bit_def safederef_flag_mask_pow
  by (simp only: and_exp_eq_0_iff_not_bit) simp

lemma test_set_safederef_bit: "test_safederef_bit (set_safederef_bit x)"
  unfolding test_safederef_bit_iff set_safederef_bit_def safederef_flag_mask_pow
  by (simp only: bit_or_iff bit_exp_iff) simp

lemma bit_clear_safederef_bit: "bit (clear_safederef_bit x) n \<longleftrightarrow> bit x n \<and> n \<noteq> 7"
  unfolding clear_safederef_bit_def safederef_flag_mask_pow
  by (auto simp only: bit_and_iff bit_not_iff bit_exp_iff dest: bit_imp_possible_bit)

lemma test_safederef_bit_small:
  assumes "x < 128"
  shows "\<not> test_safederef_bit x"
proof -
  from assms have "x < 2 ^ 7" by simp
  then have "x AND mask 7 = x" by (rule less_mask_eq)
  then have "bit x 7 \<longleftrightarrow> bit (x AND mask 7) 7" by simp
  also have "\<dots> \<longleftrightarrow> False" by (simp only: bit_and_iff bit_mask_iff) simp
  finally show ?thesis by (simp add: test_safederef_bit_iff)
qed

lemma sv_cstr_abc: "sv_cstr (buffer_at 16 abc) 16 = Some abc_view"
  by code_simp

lemma is_cstring_iff:
  "is_cstring mem v \<longleftrightarrow> test_safederef_bit (len v) \<and> mem (data v + unat (length_sv v)) \<noteq> 0"
  by (simp add: is_cstring_def data_def)

lemma substr_never_fails: "substr v pos n \<noteq> Inl e"
  by (simp add: substr_def Let_def)

lemma remove_suffix_id: "remove_suffix v n = v"
  by (simp add: remove_suffix_def)

lemma remove_prefix_len: "len (remove_prefix v n) = len v"
  by (simp add: remove_prefix_def)

subsection \<open>The pointer-and-length constructor\<close>

text \<open>
  C10. The constructor from a pointer and a length stores the length word as given. The
  specification places the flag in the most significant bit: lengths below \<open>2^63\<close> are reported
  unchanged with the flag clear, and a length with bit 63 set is reported with that bit
  cleared and the flag set. The mask is \<^verbatim>\<open>1ull << (sizeof(size_t)-1)\<close>, which is bit 7:
  the length 128 is below \<open>2^63\<close> and the view reports length 0 with the flag set, and the
  length \<open>2^63\<close> is reported unchanged with the flag clear.
\<close>

theorem sv_ptr_len_flag_bit:
  "len (sv_ptr_len 16 128) = 128
   \<and> length_sv (sv_ptr_len 16 128) = 0
   \<and> test_safederef_bit (len (sv_ptr_len 16 128))
   \<and> length_sv (sv_ptr_len 16 (2 ^ 63)) = 2 ^ 63
   \<and> \<not> test_safederef_bit (len (sv_ptr_len 16 (2 ^ 63)))"
  by code_simp

subsection \<open>\<^verbatim>\<open>is_cstring\<close>\<close>

text \<open>
  C1. \<^verbatim>\<open>is_cstring()\<close> is specified to return true exactly when the flag is set and the
  character at \<^verbatim>\<open>data()[length()]\<close> is the zero character. The view built from the
  null-terminated buffer \<open>abc\<close> has the flag set and a zero character at
  \<^verbatim>\<open>data()[length()]\<close>, and \<^verbatim>\<open>is_cstring()\<close> returns false on it: the function tests
  \<^verbatim>\<open>!= 0\<close>.
\<close>

theorem is_cstring_terminated_buffer:
  "sv_cstr (buffer_at 16 abc) 16 = Some abc_view
   \<and> test_safederef_bit (len abc_view)
   \<and> buffer_at 16 abc (data abc_view + unat (length_sv abc_view)) = 0
   \<and> is_cstring (buffer_at 16 abc) abc_view = False"
  by code_simp

subsection \<open>\<^verbatim>\<open>remove_prefix\<close> and \<^verbatim>\<open>remove_suffix\<close>\<close>

text \<open>
  C4. For \<open>n \<le> length()\<close>, \<^verbatim>\<open>remove_prefix(n)\<close> is specified to advance \<^verbatim>\<open>data()\<close> by \<open>n\<close> and
  to shrink \<^verbatim>\<open>length()\<close> by \<open>n\<close>, and \<^verbatim>\<open>remove_suffix(n)\<close> to shrink \<^verbatim>\<open>length()\<close> by \<open>n\<close>.
  On a view of five characters and \<open>n = 2\<close> the pointer moves as specified, and the length
  is still five after either call: both functions subtract from the value that
  \<^verbatim>\<open>length()\<close> returns, not from the member.
\<close>

theorem remove_prefix_suffix_keep_length:
  "(2::size_type) \<le> length_sv (sv_ptr_len 16 5)
   \<and> data (remove_prefix (sv_ptr_len 16 5) 2) = 18
   \<and> length_sv (remove_prefix (sv_ptr_len 16 5) 2) = 5
   \<and> data (remove_suffix (sv_ptr_len 16 5) 2) = 16
   \<and> length_sv (remove_suffix (sv_ptr_len 16 5) 2) = 5"
  by code_simp

subsection \<open>\<^verbatim>\<open>substr\<close>\<close>

text \<open>
  C3. \<^verbatim>\<open>substr(pos, n)\<close> is specified to raise an out-of-range failure when
  \<open>pos > length()\<close> and otherwise to return a view at \<open>pos\<close> of \<open>min(n, length() - pos)\<close>
  characters, and the \<^verbatim>\<open>compare\<close> overloads on sub-ranges to raise the same failure.
  On the three-character view over \<open>abc\<close>, \<^verbatim>\<open>substr(5, 1)\<close> returns a view of one character
  at offset 5 and \<^verbatim>\<open>compare(5, 1, str)\<close> returns a number, while \<^verbatim>\<open>at(5)\<close> reports
  \<^verbatim>\<open>out_of_range\<close>. With a valid position, \<^verbatim>\<open>substr(0, 200)\<close> of a 300-character view
  stores 200 and reports a length of 72, since bit 7 of the stored word is the flag.
\<close>

theorem substr_past_the_end:
  "length_sv abc_view = 3
   \<and> substr abc_view 5 1 = Inr \<lparr>len = 129, str = 21\<rparr>
   \<and> compare_pos (char_traits_compare (- 1) 1) (buffer_at 16 abc) abc_view 5 1 (sv_ptr_len 16 0) = Inr 1
   \<and> at (buffer_at 16 abc) abc_view 5 = Inl out_of_range
   \<and> length_sv (sv_ptr_len 16 300) = 300
   \<and> substr (sv_ptr_len 16 300) 0 200 = Inr \<lparr>len = 200, str = 16\<rparr>
   \<and> length_sv \<lparr>len = 200, str = 16\<rparr> = 72"
  by code_simp

text \<open>
  C2, as specified: for every valid \<open>(pos, n)\<close> the view that \<^verbatim>\<open>substr(pos, n)\<close> produces has
  the flag set if and only if the source has it set and both views end at the same
  address. The view over \<open>abc\<close> has the flag; its \<^verbatim>\<open>substr(0, 2)\<close> ends one character
  earlier and has the flag as well.
\<close>

theorem substr_flag_counterexample:
  "sv_cstr (buffer_at 16 abc) 16 = Some abc_view
   \<and> (0::size_type) \<le> length_sv abc_view
   \<and> substr abc_view 0 2 = Inr \<lparr>len = 130, str = 16\<rparr>
   \<and> \<not> (test_safederef_bit (len \<lparr>len = 130, str = 16\<rparr>) \<longleftrightarrow>
          test_safederef_bit (len abc_view) \<and> end_sv \<lparr>len = 130, str = 16\<rparr> = end_sv abc_view)"
  by code_simp

text \<open>
  C2, amended: for every valid \<open>(pos, n)\<close>, \<^verbatim>\<open>substr(pos, n)\<close> returns a view, and that view
  has the flag set whenever the source view has it set, wherever the produced view ends;
  when the source view has the flag clear and the produced length
  \<open>min(n, length() - pos)\<close> is below 128, the produced view has the flag clear.
\<close>

theorem substr_flag:
  assumes "pos \<le> length_sv v"
  shows "\<exists>u. substr v pos n = Inr u
     \<and> (test_safederef_bit (len v) \<longrightarrow> test_safederef_bit (len u))
     \<and> (\<not> test_safederef_bit (len v) \<and> min n (length_sv v - pos) < 128
          \<longrightarrow> \<not> test_safederef_bit (len u))"
  by (simp add: substr_def Let_def sv_can_test_safederef_def sv_ptr_len_def
      test_set_safederef_bit test_safederef_bit_small)

theorem substr_flag_witness:
  "(0::size_type) \<le> length_sv abc_view
   \<and> test_safederef_bit (len abc_view)
   \<and> (\<exists>u. substr abc_view 0 2 = Inr u \<and> test_safederef_bit (len u))
   \<and> (0::size_type) \<le> length_sv (sv_ptr_len 16 3)
   \<and> \<not> test_safederef_bit (len (sv_ptr_len 16 3))
   \<and> min 2 (length_sv (sv_ptr_len 16 3) - 0) < 128
   \<and> (\<exists>u. substr (sv_ptr_len 16 3) 0 2 = Inr u \<and> \<not> test_safederef_bit (len u))"
proof -
  have a: "(0::size_type) \<le> length_sv abc_view" by simp
  have b: "test_safederef_bit (len abc_view)" by code_simp
  have c: "(0::size_type) \<le> length_sv (sv_ptr_len 16 3)" by simp
  have d: "\<not> test_safederef_bit (len (sv_ptr_len 16 3))" by code_simp
  have e: "min 2 (length_sv (sv_ptr_len 16 3) - 0) < 128" by code_simp
  from substr_flag [OF a, of 2] b
  have f: "\<exists>u. substr abc_view 0 2 = Inr u \<and> test_safederef_bit (len u)" by blast
  from substr_flag [OF c, of 2] d e
  have g: "\<exists>u. substr (sv_ptr_len 16 3) 0 2 = Inr u \<and> \<not> test_safederef_bit (len u)" by blast
  from a b c d e f g show ?thesis by blast
qed

section \<open>Properties of comparison\<close>

lemma sint_diff_exact:
  fixes a b :: size_type
  assumes "- (2 ^ 63) \<le> int (unat a) - int (unat b)" and "int (unat a) - int (unat b) < 2 ^ 63"
  shows "sint (a - b) = int (unat a) - int (unat b)"
proof -
  have "sint (a - b) = sint (word_of_int (uint a - uint b) :: size_type)"
    by (simp only: word_sub_wi [symmetric])
  also have "\<dots> = signed_take_bit 63 (uint a - uint b)"
    by (simp only: sint_sbintrunc') simp
  also have "\<dots> = uint a - uint b"
    using assms by (intro signed_take_bit_int_eq_self) simp_all
  finally show ?thesis by simp
qed

lemma sint_minus_cases:
  fixes x :: size_type
  shows "sint (- x) = (if sint x = - (2 ^ 63) then - (2 ^ 63) else - sint x)"
proof (cases "sint x = - (2 ^ 63)")
  case True
  have "sint (- x) = signed_take_bit 63 (- sint x)" by (simp add: sint_word_ariths)
  also have "\<dots> = signed_take_bit 63 (2 ^ 63 :: int)" using True by simp
  also have "\<dots> = - (2 ^ 63)" by (simp add: signed_take_bit_eq_take_bit_minus)
  finally show ?thesis using True by simp
next
  case False
  have r: "- (2 ^ 63) \<le> sint x" "sint x < 2 ^ 63"
    using sint_range_size [of x] by (simp_all add: word_size)
  have "sint (- x) = signed_take_bit 63 (- sint x)" by (simp add: sint_word_ariths)
  also have "\<dots> = - sint x"
    using r False by (intro signed_take_bit_int_eq_self) simp_all
  finally show ?thesis using False by simp
qed

lemma sint_word_of_int_c_int:
  fixes k :: int
  assumes "- (2 ^ 31) \<le> k" and "k < 2 ^ 31"
  shows "sint (word_of_int k :: c_int) = k"
proof -
  have "sint (word_of_int k :: c_int) = signed_take_bit 31 k"
    by (simp only: sint_sbintrunc') simp
  also have "\<dots> = k"
    using assms by (intro signed_take_bit_int_eq_self) simp_all
  finally show ?thesis .
qed

lemma sint_s_compare:
  "sint (s_compare n1 n2) = max int_min (min int_max (sint (n1 - n2)))"
proof -
  define d where "d = sint (n1 - n2)"
  have sc: "s_compare n1 n2 =
      (if d > int_max then word_of_int int_max
       else if d < int_min then word_of_int int_min else word_of_int d)"
    unfolding s_compare_def Let_def d_def ..
  consider "d > int_max" | "d < int_min" | "int_min \<le> d" "d \<le> int_max" by linarith
  then show ?thesis
  proof cases
    case 1
    then have "s_compare n1 n2 = word_of_int int_max" by (simp only: sc if_True)
    moreover have "sint (word_of_int int_max :: c_int) = int_max"
      by (rule sint_word_of_int_c_int) (simp_all add: int_max_def)
    ultimately show ?thesis using 1 by (simp add: d_def [symmetric] int_max_def int_min_def)
  next
    case 2
    then have "\<not> d > int_max" by (simp add: int_max_def int_min_def)
    with 2 have "s_compare n1 n2 = word_of_int int_min" by (simp only: sc if_True if_False)
    moreover have "sint (word_of_int int_min :: c_int) = int_min"
      by (rule sint_word_of_int_c_int) (simp_all add: int_min_def)
    ultimately show ?thesis using 2 by (simp add: d_def [symmetric] int_max_def int_min_def)
  next
    case 3
    then have "\<not> d > int_max" "\<not> d < int_min" by simp_all
    then have "s_compare n1 n2 = word_of_int d" by (simp only: sc if_False)
    moreover have "sint (word_of_int d :: c_int) = d"
      using 3 by (intro sint_word_of_int_c_int) (simp_all add: int_max_def int_min_def)
    ultimately show ?thesis using 3 by (simp add: d_def [symmetric] int_max_def int_min_def)
  qed
qed

lemma char_traits_compare_equal:
  assumes "\<forall>k<n. mem (s1 + k) = mem (s2 + k)"
  shows "char_traits_compare lo hi mem s1 s2 n = 0"
  using assms
proof (induction n arbitrary: s1 s2)
  case 0
  show ?case by simp
next
  case (Suc n)
  from Suc.prems have "mem (s1 + 0) = mem (s2 + 0)" by blast
  then have eq: "mem s1 = mem s2" by simp
  have "\<forall>k<n. mem (Suc s1 + k) = mem (Suc s2 + k)"
  proof (intro allI impI)
    fix k assume "k < n"
    then have "Suc k < Suc n" by simp
    with Suc.prems have "mem (s1 + Suc k) = mem (s2 + Suc k)" by blast
    then show "mem (Suc s1 + k) = mem (Suc s2 + k)" by simp
  qed
  then have "char_traits_compare lo hi mem (Suc s1) (Suc s2) n = 0" by (rule Suc.IH)
  with eq show ?case by simp
qed

lemma char_traits_compare_first_difference:
  assumes "k < n" and "\<forall>j<k. mem (s1 + j) = mem (s2 + j)" and "mem (s1 + k) \<noteq> mem (s2 + k)"
  shows "char_traits_compare lo hi mem s1 s2 n = (if mem (s1 + k) < mem (s2 + k) then lo else hi)"
  using assms
proof (induction n arbitrary: s1 s2 k)
  case 0
  then show ?case by simp
next
  case (Suc n)
  show ?case
  proof (cases "k = 0")
    case True
    with Suc.prems show ?thesis by auto
  next
    case False
    then obtain k' where k: "k = Suc k'" by (auto simp: gr0_conv_Suc)
    from Suc.prems(2) k have eq: "mem s1 = mem s2" by auto
    have "char_traits_compare lo hi mem (Suc s1) (Suc s2) n =
        (if mem (Suc s1 + k') < mem (Suc s2 + k') then lo else hi)"
    proof (rule Suc.IH)
      show "k' < n" using Suc.prems(1) k by simp
      show "\<forall>j<k'. mem (Suc s1 + j) = mem (Suc s2 + j)"
      proof (intro allI impI)
        fix j assume "j < k'"
        then have "Suc j < k" using k by simp
        with Suc.prems(2) have "mem (s1 + Suc j) = mem (s2 + Suc j)" by blast
        then show "mem (Suc s1 + j) = mem (Suc s2 + j)" by simp
      qed
      show "mem (Suc s1 + k') \<noteq> mem (Suc s2 + k')"
        using Suc.prems(3) k by simp
    qed
    with eq k show ?thesis by simp
  qed
qed

lemma char_traits_compare_ok:
  assumes "sint lo < 0" and "0 < sint hi"
  shows "traits_compare_ok (char_traits_compare lo hi :: ('c::linorder) traits_compare)"
  unfolding traits_compare_ok_def
proof (intro allI conjI impI)
  fix mem :: "('c::linorder) memory" and s1 s2 n
  assume "\<forall>k<n. mem (s1 + k) = mem (s2 + k)"
  then show "char_traits_compare lo hi mem s1 s2 n = 0" by (rule char_traits_compare_equal)
next
  fix mem :: "('c::linorder) memory" and s1 s2 n k
  assume "k < n" and a: "(\<forall>j<k. mem (s1 + j) = mem (s2 + j)) \<and> mem (s1 + k) < mem (s2 + k)"
  then have "char_traits_compare lo hi mem s1 s2 n = (if mem (s1 + k) < mem (s2 + k) then lo else hi)"
    by (intro char_traits_compare_first_difference) auto
  with a assms show "sint (char_traits_compare lo hi mem s1 s2 n) < 0" by simp
next
  fix mem :: "('c::linorder) memory" and s1 s2 n k
  assume "k < n" and a: "(\<forall>j<k. mem (s1 + j) = mem (s2 + j)) \<and> mem (s2 + k) < mem (s1 + k)"
  then have "char_traits_compare lo hi mem s1 s2 n = (if mem (s1 + k) < mem (s2 + k) then lo else hi)"
    by (intro char_traits_compare_first_difference) auto
  moreover from a have "\<not> mem (s1 + k) < mem (s2 + k)" by (auto simp: not_less less_imp_le)
  ultimately show "0 < sint (char_traits_compare lo hi mem s1 s2 n)" using assms by simp
qed

lemma std_char_traits_compare_ok:
  "traits_compare_ok (char_traits_compare (- 1) 1 :: ('c::linorder) traits_compare)"
  by (rule char_traits_compare_ok) simp_all

lemma traits_compare_equal:
  assumes "traits_compare_ok tc" and "\<forall>k<n. mem (s1 + k) = mem (s2 + k)"
  shows "tc mem s1 s2 n = 0"
  using assms unfolding traits_compare_ok_def by blast

lemma traits_compare_less:
  assumes "traits_compare_ok tc" and "k < n" and "\<forall>j<k. mem (s1 + j) = mem (s2 + j)"
    and "mem (s1 + k) < mem (s2 + k)"
  shows "sint (tc mem s1 s2 n) < 0"
  using assms unfolding traits_compare_ok_def by blast

lemma traits_compare_greater:
  assumes "traits_compare_ok tc" and "k < n" and "\<forall>j<k. mem (s1 + j) = mem (s2 + j)"
    and "mem (s2 + k) < mem (s1 + k)"
  shows "0 < sint (tc mem s1 s2 n)"
  using assms unfolding traits_compare_ok_def by blast

lemma first_difference:
  fixes mem :: "('c::linorder) memory"
  assumes "\<not> (\<forall>k<n. mem (s1 + k) = mem (s2 + k))"
  obtains k where "k < n" and "\<forall>j<k. mem (s1 + j) = mem (s2 + j)"
    and "mem (s1 + k) \<noteq> mem (s2 + k)"
proof -
  define k where "k = (LEAST k. k < n \<and> mem (s1 + k) \<noteq> mem (s2 + k))"
  from assms have ex: "\<exists>k. k < n \<and> mem (s1 + k) \<noteq> mem (s2 + k)" by blast
  then have 1: "k < n \<and> mem (s1 + k) \<noteq> mem (s2 + k)"
    unfolding k_def by (rule LeastI_ex)
  have 2: "mem (s1 + j) = mem (s2 + j)" if "j < k" for j
  proof (rule ccontr)
    assume "mem (s1 + j) \<noteq> mem (s2 + j)"
    moreover from that 1 have "j < n" by simp
    ultimately have "k \<le> j" unfolding k_def by (intro Least_le) simp
    with that show False by simp
  qed
  from 1 2 that show thesis by blast
qed

lemma traits_compare_zero_iff:
  fixes mem :: "('c::linorder) memory"
  assumes "traits_compare_ok tc"
  shows "tc mem s1 s2 n = 0 \<longleftrightarrow> (\<forall>k<n. mem (s1 + k) = mem (s2 + k))"
proof
  assume z: "tc mem s1 s2 n = 0"
  show "\<forall>k<n. mem (s1 + k) = mem (s2 + k)"
  proof (rule ccontr)
    assume "\<not> (\<forall>k<n. mem (s1 + k) = mem (s2 + k))"
    then obtain k where k: "k < n" "\<forall>j<k. mem (s1 + j) = mem (s2 + j)"
      and d: "mem (s1 + k) \<noteq> mem (s2 + k)"
      by (rule first_difference)
    from d consider "mem (s1 + k) < mem (s2 + k)" | "mem (s2 + k) < mem (s1 + k)"
      by (metis less_linear)
    then show False
    proof cases
      case 1
      with assms k have "sint (tc mem s1 s2 n) < 0" by (rule traits_compare_less)
      with z show False by simp
    next
      case 2
      with assms k have "0 < sint (tc mem s1 s2 n)" by (rule traits_compare_greater)
      with z show False by simp
    qed
  qed
next
  assume "\<forall>k<n. mem (s1 + k) = mem (s2 + k)"
  with assms show "tc mem s1 s2 n = 0" by (rule traits_compare_equal)
qed

lemma compare_unfold:
  "compare tc mem v w =
     (if tc mem (str v) (str w) (unat (min (length_sv v) (length_sv w))) = 0
      then s_compare (length_sv v) (length_sv w)
      else tc mem (str v) (str w) (unat (min (length_sv v) (length_sv w))))"
  by (simp add: compare_def Let_def)

lemma compare_equal_prefix:
  assumes "traits_compare_ok tc"
    and "\<forall>k<unat (min (length_sv v) (length_sv w)). mem (str v + k) = mem (str w + k)"
  shows "sint (compare tc mem v w) = max int_min (min int_max (sint (length_sv v - length_sv w)))"
proof -
  from assms have "tc mem (str v) (str w) (unat (min (length_sv v) (length_sv w))) = 0"
    by (rule traits_compare_equal)
  then have "compare tc mem v w = s_compare (length_sv v) (length_sv w)"
    by (simp add: compare_unfold)
  then show ?thesis by (simp only: sint_s_compare)
qed

lemma compare_first_difference:
  fixes mem :: "('c::linorder) memory"
  assumes "traits_compare_ok tc"
    and "k < unat (min (length_sv v) (length_sv w))"
    and "\<forall>j<k. mem (str v + j) = mem (str w + j)"
  shows "mem (str v + k) < mem (str w + k) \<Longrightarrow> sint (compare tc mem v w) < 0"
    and "mem (str w + k) < mem (str v + k) \<Longrightarrow> 0 < sint (compare tc mem v w)"
proof -
  let ?r = "tc mem (str v) (str w) (unat (min (length_sv v) (length_sv w)))"
  have c: "compare tc mem v w = ?r" if "sint ?r \<noteq> 0"
  proof -
    from that have "?r \<noteq> 0" by auto
    then show ?thesis by (simp add: compare_unfold)
  qed
  show "sint (compare tc mem v w) < 0" if "mem (str v + k) < mem (str w + k)"
  proof -
    from assms that have "sint ?r < 0" by (rule traits_compare_less)
    with c show ?thesis by simp
  qed
  show "0 < sint (compare tc mem v w)" if "mem (str w + k) < mem (str v + k)"
  proof -
    from assms that have "0 < sint ?r" by (rule traits_compare_greater)
    with c show ?thesis by simp
  qed
qed

lemma compare_self:
  assumes "traits_compare_ok tc"
  shows "compare tc mem v v = 0"
proof -
  have "tc mem (str v) (str v) (unat (min (length_sv v) (length_sv v))) = 0"
    using assms by (rule traits_compare_equal) simp
  then have "compare tc mem v v = s_compare (length_sv v) (length_sv v)"
    by (simp add: compare_unfold)
  then show ?thesis by (simp add: s_compare_def int_max_def int_min_def)
qed

lemma max_size_bound:
  assumes "l \<le> max_size sizeof_value_type"
  shows "unat l < 2 ^ 63"
proof -
  let ?a = "npos - of_nat sizeof_size_t - 8 :: size_type"
  have "unat (max_size sizeof_value_type) = unat ?a div unat (of_nat sizeof_value_type :: size_type) div 4"
    by (simp add: max_size_def unat_div)
  also have "\<dots> \<le> unat ?a div 4"
    by (rule div_le_mono) (rule div_le_dividend)
  also have "unat ?a div 4 < 2 ^ 63"
    by (simp add: npos_def sizeof_size_t_def)
  finally have "unat (max_size sizeof_value_type) < 2 ^ 63" .
  moreover from assms have "unat l \<le> unat (max_size sizeof_value_type)"
    by (simp only: word_le_nat_alt)
  ultimately show ?thesis by simp
qed

lemma length_diff_bound:
  fixes a b :: size_type
  assumes "unat a < 2 ^ 63" and "unat b < 2 ^ 63"
  shows "- (2 ^ 63) \<le> int (unat a) - int (unat b)" and "int (unat a) - int (unat b) < 2 ^ 63"
    and "\<bar>int (unat a) - int (unat b)\<bar> < 2 ^ 63"
proof -
  have i: "int (2 ^ 63) = 2 ^ 63" by simp
  from assms have "int (unat a) < int (2 ^ 63)" and "int (unat b) < int (2 ^ 63)"
    by (simp_all only: of_nat_less_iff)
  then have a: "int (unat a) < 2 ^ 63" and b: "int (unat b) < 2 ^ 63" unfolding i .
  have "0 \<le> int (unat a)" "0 \<le> int (unat b)" by (rule of_nat_0_le_iff)+
  with a b show "- (2 ^ 63) \<le> int (unat a) - int (unat b)"
    and "int (unat a) - int (unat b) < 2 ^ 63"
    and "\<bar>int (unat a) - int (unat b)\<bar> < 2 ^ 63"
    by linarith+
qed



text \<open>
  Where the compared characters differ, \<^verbatim>\<open>compare\<close> hands back what \<^verbatim>\<open>traits_type::compare\<close>
  answered, and the standard leaves the size of that answer open: with an implementation
  that answers \<open>-1\<close> or \<open>2\<close>, the view over \<open>abc\<close> against the view over \<open>bc\<close> gives \<open>-1\<close> and
  the other way round \<open>2\<close>.
\<close>

lemma compare_magnitude_example:
  "traits_compare_ok (char_traits_compare (- 1) 2 :: 8 word traits_compare)
   \<and> sint (compare (char_traits_compare (- 1) 2) (buffer_at 16 abc) abc_view (sv_ptr_len 17 2)) = - 1
   \<and> sint (compare (char_traits_compare (- 1) 2) (buffer_at 16 abc) (sv_ptr_len 17 2) abc_view) = 2"
proof -
  have "traits_compare_ok (char_traits_compare (- 1) 2 :: 8 word traits_compare)"
    by (rule char_traits_compare_ok) simp_all
  moreover have "sint (compare (char_traits_compare (- 1) 2) (buffer_at 16 abc) abc_view (sv_ptr_len 17 2)) = - 1"
    by code_simp
  moreover have "sint (compare (char_traits_compare (- 1) 2) (buffer_at 16 abc) (sv_ptr_len 17 2) abc_view) = 2"
    by code_simp
  ultimately show ?thesis by blast
qed

text \<open>
  C6, as specified: \<open>v.compare(w) = -w.compare(v)\<close> for every pair of views. A view of \<open>2^31\<close>
  characters against an empty one gives \<open>2^31 - 1\<close>, the empty one against it gives \<open>-2^31\<close>,
  and neither the integers nor the 32-bit words are each other's negation.
\<close>

theorem compare_sv_antisym_counterexample:
  "sint (compare (char_traits_compare (- 1) 1) (buffer_at 16 abc) (sv_ptr_len 16 (2 ^ 31)) (sv_ptr_len 16 0))
       = 2147483647
   \<and> sint (compare (char_traits_compare (- 1) 1) (buffer_at 16 abc) (sv_ptr_len 16 0) (sv_ptr_len 16 (2 ^ 31)))
       = - 2147483648
   \<and> sint (compare (char_traits_compare (- 1) 1) (buffer_at 16 abc) (sv_ptr_len 16 (2 ^ 31)) (sv_ptr_len 16 0))
       \<noteq> - sint (compare (char_traits_compare (- 1) 1) (buffer_at 16 abc) (sv_ptr_len 16 0) (sv_ptr_len 16 (2 ^ 31)))
   \<and> compare (char_traits_compare (- 1) 1) (buffer_at 16 abc) (sv_ptr_len 16 (2 ^ 31)) (sv_ptr_len 16 0)
       \<noteq> - compare (char_traits_compare (- 1) 1) (buffer_at 16 abc) (sv_ptr_len 16 0) (sv_ptr_len 16 (2 ^ 31))"
  by (simp add: compare_def sv_ptr_len_def length_sv_def clear_safederef_bit_def
      safederef_flag_mask_eq s_compare_def int_max_def int_min_def)

text \<open>
  C6, amended: for every \<^verbatim>\<open>traits_type::compare\<close> that meets the standard's contract,
  \<open>v.compare(v) = 0\<close> for every view \<open>v\<close>; for every pair of views \<open>v\<close>, \<open>w\<close> with lengths below
  \<open>2^63\<close>, \<open>v.compare(w)\<close> is negative exactly when \<open>w.compare(v)\<close> is positive and zero exactly
  when \<open>w.compare(v)\<close> is zero; and \<open>v.compare(w) = -w.compare(v)\<close> whenever the first
  \<open>min(v.length(), w.length())\<close> characters are pairwise equal and the lengths differ by less
  than \<open>2^31\<close>.
\<close>

theorem compare_sv_antisym:
  fixes mem :: "('c::linorder) memory"
  assumes "traits_compare_ok tc"
  shows "compare tc mem v v = 0
     \<and> (unat (length_sv v) < 2 ^ 63 \<and> unat (length_sv w) < 2 ^ 63 \<longrightarrow>
          (sint (compare tc mem v w) < 0 \<longleftrightarrow> 0 < sint (compare tc mem w v))
          \<and> (sint (compare tc mem v w) = 0 \<longleftrightarrow> sint (compare tc mem w v) = 0))
     \<and> ((\<forall>k<unat (min (length_sv v) (length_sv w)). mem (str v + k) = mem (str w + k))
          \<and> \<bar>int (unat (length_sv v)) - int (unat (length_sv w))\<bar> < 2 ^ 31 \<longrightarrow>
          sint (compare tc mem v w) = - sint (compare tc mem w v))"
proof (intro conjI impI)
  let ?D = "int (unat (length_sv v)) - int (unat (length_sv w))"
  let ?n = "unat (min (length_sv v) (length_sv w))"
  have mc: "unat (min (length_sv w) (length_sv v)) = ?n" by (simp add: min.commute)
  show "compare tc mem v v = 0" using assms by (rule compare_self)
  have equal_case: "sint (compare tc mem v w) = max int_min (min int_max ?D)
      \<and> sint (compare tc mem w v) = max int_min (min int_max (- ?D))"
    if e: "\<forall>k<?n. mem (str v + k) = mem (str w + k)" and b: "\<bar>?D\<bar> < 2 ^ 63"
  proof -
    from e have e': "\<forall>k<unat (min (length_sv w) (length_sv v)). mem (str w + k) = mem (str v + k)"
      unfolding mc by simp
    have "sint (length_sv v - length_sv w) = ?D"
      using b by (intro sint_diff_exact) (simp_all add: abs_less_iff)
    moreover have "sint (length_sv w - length_sv v) = - ?D"
      using b sint_diff_exact [of "length_sv w" "length_sv v"] by (simp add: abs_less_iff)
    ultimately show ?thesis
      using compare_equal_prefix [OF assms e] compare_equal_prefix [OF assms e'] by simp
  qed
  {
    assume b: "unat (length_sv v) < 2 ^ 63 \<and> unat (length_sv w) < 2 ^ 63"
    then have D: "\<bar>?D\<bar> < 2 ^ 63" by (intro length_diff_bound) blast+
    have "(sint (compare tc mem v w) < 0 \<longleftrightarrow> 0 < sint (compare tc mem w v))
        \<and> (sint (compare tc mem v w) = 0 \<longleftrightarrow> sint (compare tc mem w v) = 0)"
    proof (cases "\<forall>k<?n. mem (str v + k) = mem (str w + k)")
      case True
      from equal_case [OF True D] show ?thesis
        by (auto simp: int_min_def int_max_def max_def min_def)
    next
      case False
      then obtain k where k: "k < ?n" and e: "\<forall>j<k. mem (str v + j) = mem (str w + j)"
        and d: "mem (str v + k) \<noteq> mem (str w + k)"
        by (rule first_difference)
      from k have k': "k < unat (min (length_sv w) (length_sv v))" unfolding mc .
      from e have e': "\<forall>j<k. mem (str w + j) = mem (str v + j)" by simp
      from d consider "mem (str v + k) < mem (str w + k)" | "mem (str w + k) < mem (str v + k)"
        by (metis less_linear)
      then show ?thesis
      proof cases
        case 1
        from compare_first_difference(1) [OF assms k e 1]
          compare_first_difference(2) [OF assms k' e' 1]
        show ?thesis by simp
      next
        case 2
        from compare_first_difference(2) [OF assms k e 2]
          compare_first_difference(1) [OF assms k' e' 2]
        show ?thesis by simp
      qed
    qed
  }
  then show "sint (compare tc mem v w) < 0 \<longleftrightarrow> 0 < sint (compare tc mem w v)"
    and "sint (compare tc mem v w) = 0 \<longleftrightarrow> sint (compare tc mem w v) = 0"
    if "unat (length_sv v) < 2 ^ 63 \<and> unat (length_sv w) < 2 ^ 63"
    using that by blast+
  assume a: "(\<forall>k<?n. mem (str v + k) = mem (str w + k)) \<and> \<bar>?D\<bar> < 2 ^ 31"
  then have e: "\<forall>k<?n. mem (str v + k) = mem (str w + k)" and D: "\<bar>?D\<bar> < 2 ^ 63"
    by simp_all
  from equal_case [OF e D] a
  show "sint (compare tc mem v w) = - sint (compare tc mem w v)"
    by (auto simp: int_min_def int_max_def max_def min_def abs_less_iff)
qed

theorem compare_sv_antisym_witness:
  "traits_compare_ok (char_traits_compare (- 1) 1 :: 8 word traits_compare)
   \<and> compare (char_traits_compare (- 1) 1) (buffer_at 16 abc) abc_view abc_view = 0
   \<and> unat (length_sv abc_view) < 2 ^ 63
   \<and> unat (length_sv (sv_ptr_len 16 2)) < 2 ^ 63
   \<and> unat (min (length_sv abc_view) (length_sv (sv_ptr_len 16 2))) = 2
   \<and> buffer_at 16 abc (str abc_view + 0) = buffer_at 16 abc (str (sv_ptr_len 16 2) + 0)
   \<and> buffer_at 16 abc (str abc_view + 1) = buffer_at 16 abc (str (sv_ptr_len 16 2) + 1)
   \<and> \<bar>int (unat (length_sv abc_view)) - int (unat (length_sv (sv_ptr_len 16 2)))\<bar> < 2 ^ 31
   \<and> 0 < sint (compare (char_traits_compare (- 1) 1) (buffer_at 16 abc) abc_view (sv_ptr_len 16 2))
   \<and> sint (compare (char_traits_compare (- 1) 1) (buffer_at 16 abc) (sv_ptr_len 16 2) abc_view) < 0
   \<and> sint (compare (char_traits_compare (- 1) 1) (buffer_at 16 abc) abc_view (sv_ptr_len 16 2))
       = - sint (compare (char_traits_compare (- 1) 1) (buffer_at 16 abc) (sv_ptr_len 16 2) abc_view)"
proof -
  let ?m = "buffer_at 16 abc :: 8 word memory"
  let ?tc = "char_traits_compare (- 1) 1 :: 8 word traits_compare"
  let ?w = "sv_ptr_len 16 2"
  have ok: "traits_compare_ok ?tc" by (rule char_traits_compare_ok) simp_all
  have l: "length_sv abc_view = 3" "length_sv ?w = 2" by code_simp+
  have s: "str abc_view = 16" "str ?w = 16" by (simp_all add: abc_view_def sv_ptr_len_def)
  have b: "unat (length_sv abc_view) < 2 ^ 63" "unat (length_sv ?w) < 2 ^ 63"
    by (simp_all add: l)
  have m: "unat (min (length_sv abc_view) (length_sv ?w)) = 2" by (simp add: l)
  have e0: "?m (str abc_view + 0) = ?m (str ?w + 0)" and e1: "?m (str abc_view + 1) = ?m (str ?w + 1)"
    by (simp_all add: s)
  have eq: "\<forall>k<unat (min (length_sv abc_view) (length_sv ?w)). ?m (str abc_view + k) = ?m (str ?w + k)"
    by (simp add: s)
  have d: "\<bar>int (unat (length_sv abc_view)) - int (unat (length_sv ?w))\<bar> < 2 ^ 31"
    by (simp add: l)
  have neg: "sint (compare ?tc ?m ?w abc_view) < 0" by code_simp
  note t = compare_sv_antisym [OF ok, of ?m abc_view ?w]
  from t have z: "compare ?tc ?m abc_view abc_view = 0" by blast
  from t b have "sint (compare ?tc ?m ?w abc_view) < 0 \<longleftrightarrow> 0 < sint (compare ?tc ?m abc_view ?w)"
    using compare_sv_antisym [OF ok, of ?m ?w abc_view] by blast
  with neg have pos: "0 < sint (compare ?tc ?m abc_view ?w)" by blast
  from t eq d have a: "sint (compare ?tc ?m abc_view ?w) = - sint (compare ?tc ?m ?w abc_view)"
    by blast
  from ok z b m e0 e1 d pos neg a show ?thesis by blast
qed

section \<open>Properties of searching\<close>

lemma bit_set_safederef_bit: "bit (set_safederef_bit x) n \<longleftrightarrow> bit x n \<or> n = 7"
  unfolding set_safederef_bit_def safederef_flag_mask_pow
  by (auto simp only: bit_or_iff bit_exp_iff possible_bit_word) simp_all

lemma npos_greatest: "x \<le> npos"
  by (simp add: npos_def)

lemma length_sv_bound: "Suc (unat (length_sv v)) < 2 ^ 64"
proof -
  have "length_sv v \<le> NOT 128"
    unfolding length_sv_def clear_safederef_bit_def safederef_flag_mask_eq by (rule word_and_le1)
  then have "unat (length_sv v) \<le> unat (NOT 128 :: size_type)" by (simp only: word_le_nat_alt)
  also have "unat (NOT 128 :: size_type) = 18446744073709551487" by simp
  finally show ?thesis by simp
qed

lemma clear_safederef_bit_le: "clear_safederef_bit x \<le> x"
  unfolding clear_safederef_bit_def by (rule word_and_le2)

lemma clear_set_safederef_bit: "clear_safederef_bit (set_safederef_bit x) = clear_safederef_bit x"
  by (rule bit_word_eqI) (auto simp: bit_clear_safederef_bit bit_set_safederef_bit)

lemma unat_succ:
  fixes pos :: size_type
  assumes "Suc (unat pos) < 2 ^ 64"
  shows "unat (pos + 1) = Suc (unat pos)"
proof -
  have "unat pos + unat (1 :: size_type) < 2 ^ LENGTH(64)" using assms by simp
  then have "unat (pos + 1) = unat pos + unat (1 :: size_type)" by (simp only: unat_add_lem)
  then show ?thesis by simp
qed

lemma unat_pred:
  fixes n :: size_type
  assumes "n \<noteq> 0"
  shows "unat n = Suc (unat (n - 1))"
proof -
  from assms have "1 \<le> n" by (simp add: word_le_nat_alt unat_gt_0 Suc_leI)
  then have "unat (n - 1) = unat n - unat (1 :: size_type)" by (rule unat_sub)
  moreover from assms have "0 < unat n" by (simp add: unat_gt_0)
  ultimately show ?thesis by simp
qed

lemma find_loop_result:
  fixes mem :: "('c::linorder) memory" and tc :: "'c traits_compare"
  defines "M \<equiv> \<lambda>v s n i. mem (str v + unat i) = mem s
      \<and> tc mem (str v + unat i + 1) (s + 1) (unat (n - 1)) = 0"
  assumes bound: "Suc (unat (length_sv v - n)) < 2 ^ 64"
  shows "\<exists>r. find_loop tc mem v s n pos = Some r \<and>
     ((r = npos \<and> (\<forall>i. pos \<le> i \<and> i \<le> length_sv v - n \<longrightarrow> \<not> M v s n i)) \<or>
      (pos \<le> r \<and> r \<le> length_sv v - n \<and> M v s n r \<and> (\<forall>i. pos \<le> i \<and> i < r \<longrightarrow> \<not> M v s n i)))"
proof (induction "Suc (unat (length_sv v - n)) - unat pos" arbitrary: pos rule: less_induct)
  case less
  let ?L = "length_sv v - n"
  show ?case
  proof (cases "pos \<le> ?L")
    case False
    then have "find_loop tc mem v s n pos = Some npos"
      by (subst find_loop.simps) simp
    moreover from False have "\<forall>i. pos \<le> i \<and> i \<le> ?L \<longrightarrow> \<not> M v s n i"
      by (meson order_trans)
    ultimately show ?thesis by blast
  next
    case le: True
    show ?thesis
    proof (cases "M v s n pos")
      case True
      with le have "find_loop tc mem v s n pos = Some pos"
        by (subst find_loop.simps) (simp add: M_def)
      with True le show ?thesis by auto
    next
      case False
      with le have step: "find_loop tc mem v s n pos = find_loop tc mem v s n (pos + 1)"
        by (subst find_loop.simps) (auto simp: M_def)
      from le have "unat pos \<le> unat ?L" by (simp only: word_le_nat_alt)
      with bound have "Suc (unat pos) < 2 ^ 64" by simp
      then have u: "unat (pos + 1) = Suc (unat pos)" by (rule unat_succ)
      with \<open>unat pos \<le> unat ?L\<close>
      have "Suc (unat ?L) - unat (pos + 1) < Suc (unat ?L) - unat pos" by simp
      from less.hyps [OF this] obtain r where r: "find_loop tc mem v s n (pos + 1) = Some r"
        and d: "(r = npos \<and> (\<forall>i. pos + 1 \<le> i \<and> i \<le> ?L \<longrightarrow> \<not> M v s n i)) \<or>
          (pos + 1 \<le> r \<and> r \<le> ?L \<and> M v s n r \<and> (\<forall>i. pos + 1 \<le> i \<and> i < r \<longrightarrow> \<not> M v s n i))"
        by blast
      have next_le: "pos + 1 \<le> i" if "pos \<le> i" "i \<noteq> pos" for i
      proof -
        from that have "unat pos < unat i" by (simp add: word_le_nat_alt word_unat_eq_iff)
        then show ?thesis by (simp add: word_le_nat_alt u)
      qed
      have rest: "\<not> M v s n i" if "pos \<le> i" and "pos + 1 \<le> i \<Longrightarrow> \<not> M v s n i" for i
        using that False next_le by (cases "i = pos") auto
      from d show ?thesis
      proof
        assume a: "r = npos \<and> (\<forall>i. pos + 1 \<le> i \<and> i \<le> ?L \<longrightarrow> \<not> M v s n i)"
        then have "\<forall>i. pos \<le> i \<and> i \<le> ?L \<longrightarrow> \<not> M v s n i" using rest by blast
        with a r step show ?thesis by simp
      next
        assume a: "pos + 1 \<le> r \<and> r \<le> ?L \<and> M v s n r \<and> (\<forall>i. pos + 1 \<le> i \<and> i < r \<longrightarrow> \<not> M v s n i)"
        then have "unat pos < unat r" by (simp add: word_le_nat_alt u)
        then have "pos \<le> r" by (simp add: word_le_nat_alt)
        moreover from a have "\<forall>i. pos \<le> i \<and> i < r \<longrightarrow> \<not> M v s n i" using rest by blast
        ultimately show ?thesis using a r step by simp
      qed
    qed
  qed
qed

lemma traits_compare_match:
  fixes mem :: "('c::linorder) memory" and n :: size_type
  assumes ok: "traits_compare_ok tc" and "n \<noteq> 0"
  shows "mem p = mem s \<and> tc mem (p + 1) (s + 1) (unat (n - 1)) = 0 \<longleftrightarrow>
     (\<forall>k\<in>{0..<unat n}. mem (p + k) = mem (s + k))"
proof -
  from assms(2) have n: "unat n = Suc (unat (n - 1))" by (rule unat_pred)
  have "(\<forall>k\<in>{0..<Suc m}. mem (p + k) = mem (s + k)) \<longleftrightarrow>
      mem p = mem s \<and> (\<forall>k<m. mem (p + 1 + k) = mem (s + 1 + k))" for m
  proof
    assume a: "\<forall>k\<in>{0..<Suc m}. mem (p + k) = mem (s + k)"
    then have "mem (p + 0) = mem (s + 0)" by (rule bspec) simp
    moreover have "mem (p + 1 + k) = mem (s + 1 + k)" if "k < m" for k
    proof -
      from that have "Suc k \<in> {0..<Suc m}" by simp
      with a have "mem (p + Suc k) = mem (s + Suc k)" by blast
      then show ?thesis by simp
    qed
    ultimately show "mem p = mem s \<and> (\<forall>k<m. mem (p + 1 + k) = mem (s + 1 + k))" by simp
  next
    assume a: "mem p = mem s \<and> (\<forall>k<m. mem (p + 1 + k) = mem (s + 1 + k))"
    show "\<forall>k\<in>{0..<Suc m}. mem (p + k) = mem (s + k)"
    proof
      fix k assume "k \<in> {0..<Suc m}"
      then show "mem (p + k) = mem (s + k)" using a by (cases k) auto
    qed
  qed
  then show ?thesis by (simp only: n traits_compare_zero_iff [OF ok])
qed

lemma find_buf_result:
  fixes mem :: "('c::linorder) memory"
  assumes ok: "traits_compare_ok tc"
  shows "\<exists>r. find_buf tc mem v s pos n = Some r
     \<and> (r = npos \<longrightarrow> (\<forall>i. pos \<le> i \<longrightarrow> \<not> spec_occurs_at mem v s n i))
     \<and> (r \<noteq> npos \<longrightarrow> pos \<le> r \<and> spec_occurs_at mem v s n r
           \<and> (\<forall>i. pos \<le> i \<and> i < r \<longrightarrow> \<not> spec_occurs_at mem v s n i))
     \<and> (n = 0 \<longrightarrow> r = (if pos \<le> length_sv v then pos else npos))
     \<and> (length_sv v < pos \<longrightarrow> r = npos)"
proof -
  let ?l = "length_sv v"
  have lb: "Suc (unat ?l) < 2 ^ 64" by (rule length_sv_bound)
  have np: "unat npos = 2 ^ 64 - 1"
    by (simp add: npos_def unsigned_minus_1_eq_mask mask_eq_exp_minus_1)
  have no_npos: "i \<noteq> npos" if "unat i \<le> unat ?l" for i
    using that lb np by auto
  consider (empty) "n = 0" | (long) "n \<noteq> 0" "\<not> n \<le> ?l" | (loop) "n \<noteq> 0" "n \<le> ?l"
    by blast
  then show ?thesis
  proof cases
    case empty
    show ?thesis
    proof (cases "pos \<le> ?l")
      case True
      then have "find_buf tc mem v s pos n = Some pos" using empty by (simp add: find_buf_def)
      moreover have "pos \<noteq> npos" using True by (intro no_npos) (simp add: word_le_nat_alt)
      moreover have "spec_occurs_at mem v s n pos"
        using True empty by (simp add: spec_occurs_at_def word_le_nat_alt)
      ultimately show ?thesis using True empty by auto
    next
      case False
      then have "find_buf tc mem v s pos n = Some npos" using empty by (simp add: find_buf_def)
      moreover have "\<not> spec_occurs_at mem v s n i" if "pos \<le> i" for i
        using that False by (auto simp: spec_occurs_at_def word_le_nat_alt)
      ultimately show ?thesis using False empty by auto
    qed
  next
    case long
    then have "find_buf tc mem v s pos n = Some npos" by (simp add: find_buf_def)
    moreover have "\<not> spec_occurs_at mem v s n i" for i
      using long by (auto simp: spec_occurs_at_def word_le_nat_alt)
    ultimately show ?thesis using long by auto
  next
    case loop
    let ?L = "?l - n"
    from loop have fb: "find_buf tc mem v s pos n = find_loop tc mem v s n pos"
      by (simp add: find_buf_def)
    from loop have uL: "unat ?L = unat ?l - unat n" by (simp add: unat_sub)
    from loop have un: "0 < unat n" "unat n \<le> unat ?l"
      by (simp_all add: unat_gt_0 word_le_nat_alt)
    have bound: "Suc (unat ?L) < 2 ^ 64" using uL lb by simp
    have in_range: "i \<le> ?L \<longleftrightarrow> unat i + unat n \<le> unat ?l" for i
      using uL un by (auto simp: word_le_nat_alt)
    have occ: "spec_occurs_at mem v s n i \<longleftrightarrow> i \<le> ?L \<and> (mem (str v + unat i) = mem s
        \<and> tc mem (str v + unat i + 1) (s + 1) (unat (n - 1)) = 0)" for i
      unfolding spec_occurs_at_def in_range
      by (simp only: traits_compare_match [OF ok loop(1), of mem "str v + unat i" s])
    from find_loop_result [OF bound, where mem = mem and tc = tc and s = s and pos = pos]
    obtain r where r: "find_loop tc mem v s n pos = Some r"
      and d: "(r = npos \<and> (\<forall>i. pos \<le> i \<and> i \<le> ?L \<longrightarrow> \<not> (mem (str v + unat i) = mem s
          \<and> tc mem (str v + unat i + 1) (s + 1) (unat (n - 1)) = 0))) \<or>
        (pos \<le> r \<and> r \<le> ?L \<and> (mem (str v + unat r) = mem s
          \<and> tc mem (str v + unat r + 1) (s + 1) (unat (n - 1)) = 0)
          \<and> (\<forall>i. pos \<le> i \<and> i < r \<longrightarrow> \<not> (mem (str v + unat i) = mem s
          \<and> tc mem (str v + unat i + 1) (s + 1) (unat (n - 1)) = 0)))"
      by blast
    from d show ?thesis
    proof
      assume a: "r = npos \<and> (\<forall>i. pos \<le> i \<and> i \<le> ?L \<longrightarrow> \<not> (mem (str v + unat i) = mem s
          \<and> tc mem (str v + unat i + 1) (s + 1) (unat (n - 1)) = 0))"
      have "\<forall>i. pos \<le> i \<longrightarrow> \<not> spec_occurs_at mem v s n i" unfolding occ using a by blast
      with a r fb loop show ?thesis by simp
    next
      assume a: "pos \<le> r \<and> r \<le> ?L \<and> (mem (str v + unat r) = mem s
          \<and> tc mem (str v + unat r + 1) (s + 1) (unat (n - 1)) = 0)
          \<and> (\<forall>i. pos \<le> i \<and> i < r \<longrightarrow> \<not> (mem (str v + unat i) = mem s
          \<and> tc mem (str v + unat i + 1) (s + 1) (unat (n - 1)) = 0))"
      have o: "spec_occurs_at mem v s n r" unfolding occ using a by blast
      from a have "unat r \<le> unat ?l" using in_range [of r] by simp
      then have ne: "r \<noteq> npos" by (rule no_npos)
      have e: "\<forall>i. pos \<le> i \<and> i < r \<longrightarrow> \<not> spec_occurs_at mem v s n i" unfolding occ using a by blast
      have "\<not> ?l < pos"
      proof
        assume "?l < pos"
        with a have "unat ?l < unat r" by (simp add: word_le_nat_alt word_less_nat_alt)
        with \<open>unat r \<le> unat ?l\<close> show False by simp
      qed
      with a o ne e r fb loop show ?thesis by simp
    qed
  qed
qed

text \<open>
  C7. For every view \<open>v\<close>, pattern view \<open>p\<close> and start position, and every
  \<^verbatim>\<open>traits_type::compare\<close> that meets the standard's contract, \<open>v.find(p, startPos)\<close> returns.
  A result other than the sentinel \<^verbatim>\<open>npos\<close> (the largest position value) is the smallest
  index \<open>i \<ge> startPos\<close> at which the characters of \<open>v\<close> in \<open>[i, i + |p|)\<close> are those of \<open>p\<close>,
  and the sentinel is returned only when there is no such index. When \<open>p\<close> is empty the
  result is \<open>startPos\<close> if \<open>startPos \<le> v.length()\<close> and the sentinel otherwise, and when
  \<open>startPos > v.length()\<close> the result is the sentinel.
\<close>

theorem find_sv_first_occurrence:
  fixes mem :: "('c::linorder) memory"
  assumes "traits_compare_ok tc"
  shows "\<exists>r. find_sv tc mem v p startPos = Some r
     \<and> (r = npos \<longrightarrow> (\<forall>i. startPos \<le> i \<longrightarrow> \<not> spec_occurs_at mem v (str p) (length_sv p) i))
     \<and> (r \<noteq> npos \<longrightarrow> startPos \<le> r \<and> spec_occurs_at mem v (str p) (length_sv p) r
           \<and> (\<forall>i. startPos \<le> i \<and> i < r \<longrightarrow> \<not> spec_occurs_at mem v (str p) (length_sv p) i))
     \<and> (length_sv p = 0 \<longrightarrow> r = (if startPos \<le> length_sv v then startPos else npos))
     \<and> (length_sv v < startPos \<longrightarrow> r = npos)"
  unfolding find_sv_def using assms by (rule find_buf_result)

theorem find_sv_first_occurrence_witness:
  "traits_compare_ok (char_traits_compare (- 1) 1 :: 8 word traits_compare)
   \<and> find_sv (char_traits_compare (- 1) 1) (buffer_at 16 abc) abc_view (sv_ptr_len 17 2) 0 = Some 1
   \<and> (1::size_type) \<noteq> npos
   \<and> spec_occurs_at (buffer_at 16 abc) abc_view (str (sv_ptr_len 17 2)) (length_sv (sv_ptr_len 17 2)) 1
   \<and> \<not> spec_occurs_at (buffer_at 16 abc) abc_view (str (sv_ptr_len 17 2)) (length_sv (sv_ptr_len 17 2)) 0
   \<and> find_sv (char_traits_compare (- 1) 1) (buffer_at 16 abc) abc_view (sv_ptr_len 16 1) 1 = Some npos
   \<and> \<not> spec_occurs_at (buffer_at 16 abc) abc_view (str (sv_ptr_len 16 1)) (length_sv (sv_ptr_len 16 1)) 2
   \<and> length_sv (sv_ptr_len 16 0) = 0
   \<and> find_sv (char_traits_compare (- 1) 1) (buffer_at 16 abc) abc_view (sv_ptr_len 16 0) 2 = Some 2
   \<and> length_sv abc_view < 5
   \<and> find_sv (char_traits_compare (- 1) 1) (buffer_at 16 abc) abc_view (sv_ptr_len 17 2) 5 = Some npos"
proof -
  let ?m = "buffer_at 16 abc :: 8 word memory"
  let ?tc = "char_traits_compare (- 1) 1 :: 8 word traits_compare"
  have ok: "traits_compare_ok ?tc" by (rule char_traits_compare_ok) simp_all
  have f1: "find_sv ?tc ?m abc_view (sv_ptr_len 17 2) 0 = Some 1" by code_simp
  have n1: "(1::size_type) \<noteq> npos" by (simp add: npos_def)
  from find_sv_first_occurrence [OF ok, of ?m abc_view "sv_ptr_len 17 2" 0] f1 n1
  have o1: "spec_occurs_at ?m abc_view (str (sv_ptr_len 17 2)) (length_sv (sv_ptr_len 17 2)) 1"
    and o0: "\<forall>i. 0 \<le> i \<and> i < 1 \<longrightarrow>
      \<not> spec_occurs_at ?m abc_view (str (sv_ptr_len 17 2)) (length_sv (sv_ptr_len 17 2)) i"
    by auto
  from o0 have o0': "\<not> spec_occurs_at ?m abc_view (str (sv_ptr_len 17 2)) (length_sv (sv_ptr_len 17 2)) 0"
    by simp
  have f2: "find_sv ?tc ?m abc_view (sv_ptr_len 16 1) 1 = Some npos" by code_simp
  from find_sv_first_occurrence [OF ok, of ?m abc_view "sv_ptr_len 16 1" 1] f2
  have "\<forall>i. 1 \<le> i \<longrightarrow> \<not> spec_occurs_at ?m abc_view (str (sv_ptr_len 16 1)) (length_sv (sv_ptr_len 16 1)) i"
    by auto
  moreover have "(1::size_type) \<le> 2" by simp
  ultimately have o2: "\<not> spec_occurs_at ?m abc_view (str (sv_ptr_len 16 1)) (length_sv (sv_ptr_len 16 1)) 2"
    by blast
  have e: "length_sv (sv_ptr_len 16 0) = 0" by code_simp
  have le: "(2::size_type) \<le> length_sv abc_view" by code_simp
  from find_sv_first_occurrence [OF ok, of ?m abc_view "sv_ptr_len 16 0" 2] e le
  have f3: "find_sv ?tc ?m abc_view (sv_ptr_len 16 0) 2 = Some 2" by auto
  have lt: "length_sv abc_view < 5" by code_simp
  from find_sv_first_occurrence [OF ok, of ?m abc_view "sv_ptr_len 17 2" 5] lt
  have f4: "find_sv ?tc ?m abc_view (sv_ptr_len 17 2) 5 = Some npos" by auto
  from ok f1 n1 o1 o0' f2 o2 e f3 lt f4 show ?thesis by blast
qed

text \<open>
  C9. For every view \<open>v\<close> and all indices \<open>i \<le> j \<le> v.length()\<close>, \<open>v.substr(i, j - i)\<close> is a
  view and \<open>v.find(v.substr(i, j - i), 0)\<close> returns a position that is at most \<open>i\<close>, for every
  \<^verbatim>\<open>traits_type::compare\<close> that meets the standard's contract.
\<close>

theorem find_substr_round_trip:
  fixes mem :: "('c::linorder) memory"
  assumes ok: "traits_compare_ok tc" and ij0: "i \<le> j" and jl: "j \<le> length_sv v"
  shows "\<exists>u r. substr v i (j - i) = Inr u \<and> find_sv tc mem v u 0 = Some r \<and> r \<le> i"
proof -
  from ij0 jl have ij: "unat i \<le> unat j" "unat j \<le> unat (length_sv v)"
    by (simp_all add: word_le_nat_alt)
  from ij0 jl have il: "i \<le> length_sv v" by simp
  have uji: "unat (j - i) = unat j - unat i" using ij0 by (rule unat_sub)
  have uli: "unat (length_sv v - i) = unat (length_sv v) - unat i" using il by (rule unat_sub)
  have "j - i \<le> length_sv v - i" using ij uji uli by (simp add: word_le_nat_alt)
  then have rlen: "min (j - i) (length_sv v - i) = j - i" by (simp add: min_def)
  define u where "u = (if test_safederef_bit (len v)
      then sv_can_test_safederef (str v + unat i) (j - i)
      else sv_ptr_len (str v + unat i) (j - i))"
  have u: "substr v i (j - i) = Inr u"
    unfolding substr_def Let_def rlen u_def by simp
  have su: "str u = str v + unat i"
    by (simp add: u_def sv_can_test_safederef_def sv_ptr_len_def)
  have lu: "length_sv u = clear_safederef_bit (j - i)"
    by (simp add: u_def length_sv_def sv_can_test_safederef_def sv_ptr_len_def clear_set_safederef_bit)
  have "unat (length_sv u) \<le> unat (j - i)"
    unfolding lu using clear_safederef_bit_le [of "j - i"] by (simp only: word_le_nat_alt)
  then have occ: "spec_occurs_at mem v (str u) (length_sv u) i"
    using ij uji by (simp add: spec_occurs_at_def su)
  from find_buf_result [OF ok, of mem v "str u" 0 "length_sv u"]
  obtain r where r: "find_sv tc mem v u 0 = Some r"
    and a: "r = npos \<longrightarrow> (\<forall>i. 0 \<le> i \<longrightarrow> \<not> spec_occurs_at mem v (str u) (length_sv u) i)"
    and b: "r \<noteq> npos \<longrightarrow> (\<forall>i. 0 \<le> i \<and> i < r \<longrightarrow> \<not> spec_occurs_at mem v (str u) (length_sv u) i)"
    unfolding find_sv_def by blast
  from a occ have "r \<noteq> npos" by auto
  with b occ have "\<not> i < r" by auto
  then have "r \<le> i" by simp
  with u r show ?thesis by blast
qed

theorem find_substr_round_trip_witness:
  "traits_compare_ok (char_traits_compare (- 1) 1 :: 8 word traits_compare)
   \<and> (1::size_type) \<le> 3 \<and> (3::size_type) \<le> length_sv abc_view
   \<and> (\<exists>u r. substr abc_view 1 (3 - 1) = Inr u
         \<and> find_sv (char_traits_compare (- 1) 1) (buffer_at 16 abc) abc_view u 0 = Some r \<and> r \<le> 1)"
proof -
  have ok: "traits_compare_ok (char_traits_compare (- 1) 1 :: 8 word traits_compare)"
    by (rule char_traits_compare_ok) simp_all
  have a: "(1::size_type) \<le> 3" by simp
  have b: "(3::size_type) \<le> length_sv abc_view" by code_simp
  from find_substr_round_trip [OF ok a b, of "buffer_at 16 abc :: 8 word memory"] ok a b
  show ?thesis by blast
qed

section \<open>Properties of hashing\<close>

lemma seven_mask: "(7 :: 64 word) = mask 3"
  by (simp add: mask_eq_exp_minus_1)

lemma split_len:
  fixes l :: "64 word"
  shows "(l AND NOT 7) + (l AND 7) = l"
proof -
  have "(l AND NOT (mask 3)) + (l AND mask 3) = (l AND NOT (mask 3)) OR (l AND mask 3)"
    by (rule disjunctive_add) (simp add: bit_simps)
  also have "\<dots> = l"
    by (rule bit_word_eqI) (auto simp: bit_simps)
  finally show ?thesis by (simp only: seven_mask)
qed

lemma unat_split_len:
  fixes l :: "64 word"
  shows "unat (l AND NOT 7) + unat (l AND 7) = unat l"
proof -
  have le: "l AND NOT 7 \<le> l" by (rule word_and_le2)
  have "l AND 7 = l - (l AND NOT 7)" using split_len [of l] by (simp add: algebra_simps)
  then have "unat (l AND 7) = unat (l - (l AND NOT 7))" by simp
  also have "\<dots> = unat l - unat (l AND NOT 7)" using le by (rule unat_sub)
  finally show ?thesis using le by (simp add: word_le_nat_alt)
qed

lemma aligned_dvd:
  fixes l :: "64 word"
  shows "8 dvd unat (l AND NOT 7)"
proof -
  have "(l AND NOT (mask 3)) AND mask 3 = 0"
    by (rule bit_word_eqI) (auto simp: bit_simps)
  then have "2 ^ 3 dvd unat (l AND NOT (mask 3))" by (simp only: and_mask_dvd_nat)
  then show ?thesis by (simp add: seven_mask)
qed

lemma tail_bound:
  fixes l :: "64 word"
  shows "unat (l AND 7) < 8"
proof -
  have "l AND 7 \<le> 7" by (rule word_and_le1)
  then have "unat (l AND 7) \<le> unat (7 :: 64 word)" by (simp only: word_le_nat_alt)
  then show ?thesis by simp
qed

lemma unaligned_load_cong:
  assumes "\<forall>a<8. bm1 (p1 + a) = bm2 (p2 + a)"
  shows "unaligned_load bm1 p1 = unaligned_load bm2 p2"
proof -
  have "bm1 (p1 + a) = bm2 (p2 + a)" if "a < 8" for a using assms that by blast
  from this [of 0] this [of 1] this [of 2] this [of 3] this [of 4] this [of 5] this [of 6] this [of 7]
  show ?thesis by (simp add: unaligned_load_def)
qed

lemma load_bytes_loop_cong:
  assumes "0 \<le> n" and "\<forall>a\<le>nat n. bm1 (p1 + a) = bm2 (p2 + a)"
  shows "load_bytes_loop bm1 p1 n r = load_bytes_loop bm2 p2 n r"
  using assms
proof (induction "nat n" arbitrary: n r)
  case 0
  then have n: "n = 0" by simp
  from "0.prems"(2) have "bm1 (p1 + 0) = bm2 (p2 + 0)" by blast
  then show ?case
    by (subst (1 2) load_bytes_loop.simps) (simp add: n)
next
  case (Suc k)
  then have n: "0 \<le> n - 1" "k = nat (n - 1)" by simp_all
  have b: "bm1 (nat (int p1 + n)) = bm2 (nat (int p2 + n))"
  proof -
    from Suc.prems have "bm1 (p1 + nat n) = bm2 (p2 + nat n)" by blast
    moreover have "nat (int p1 + n) = p1 + nat n" "nat (int p2 + n) = p2 + nat n"
      using Suc.prems(1) by (simp_all add: nat_add_distrib)
    ultimately show ?thesis by simp
  qed
  have "\<forall>a\<le>nat (n - 1). bm1 (p1 + a) = bm2 (p2 + a)" using Suc.prems(2) n by auto
  from Suc.hyps(1) [OF n(2) n(1) this]
  have ih: "load_bytes_loop bm1 p1 (n - 1) r' = load_bytes_loop bm2 p2 (n - 1) r'" for r' .
  show ?case
    by (subst (1 2) load_bytes_loop.simps) (simp add: Let_def b ih n(1))
qed

lemma hash_loop_cong:
  assumes "8 dvd d" and "\<forall>a<d. bm1 (p1 + a) = bm2 (p2 + a)"
  shows "hash_loop bm1 p1 (p1 + d) h = hash_loop bm2 p2 (p2 + d) h
     \<and> (\<exists>r. hash_loop bm1 p1 (p1 + d) h = Some r)"
  using assms
proof (induction d arbitrary: p1 p2 h rule: less_induct)
  case (less d)
  show ?case
  proof (cases "d = 0")
    case True
    have "hash_loop bm p p h = Some h" for bm p
      by (subst hash_loop.simps) simp
    with True show ?thesis by simp
  next
    case False
    with less.prems(1) obtain d' where d: "d = 8 + d'" and d': "8 dvd d'"
      by (metis dvd_add_triv_left_iff dvd_imp_le le_Suc_ex neq0_conv)
    have ne: "p1 \<noteq> p1 + d" "p2 \<noteq> p2 + d" using False by simp_all
    have "\<forall>a<8. bm1 (p1 + a) = bm2 (p2 + a)" using less.prems(2) d by simp
    then have ld: "unaligned_load bm1 p1 = unaligned_load bm2 p2" by (rule unaligned_load_cong)
    have rest: "\<forall>a<d'. bm1 (p1 + 8 + a) = bm2 (p2 + 8 + a)"
    proof (intro allI impI)
      fix a assume "a < d'"
      then have "8 + a < d" using d by simp
      with less.prems(2) have "bm1 (p1 + (8 + a)) = bm2 (p2 + (8 + a))" by blast
      then show "bm1 (p1 + 8 + a) = bm2 (p2 + 8 + a)" by (simp add: add.assoc)
    qed
    have "d' < d" using d by simp
    from less.IH [OF this d' rest]
    have ih: "hash_loop bm1 (p1 + 8) (p1 + 8 + d') h' = hash_loop bm2 (p2 + 8) (p2 + 8 + d') h'
        \<and> (\<exists>r. hash_loop bm1 (p1 + 8) (p1 + 8 + d') h' = Some r)" for h' .
    have e: "p1 + d = p1 + 8 + d'" "p2 + d = p2 + 8 + d'" using d by simp_all
    have s1: "hash_loop bm1 p1 (p1 + d) h =
        hash_loop bm1 (p1 + 8) (p1 + 8 + d')
          ((h XOR shift_mix (unaligned_load bm1 p1 * mul) * mul) * mul)"
      using ne(1) by (subst hash_loop.simps) (simp add: Let_def e)
    have s2: "hash_loop bm2 p2 (p2 + d) h =
        hash_loop bm2 (p2 + 8) (p2 + 8 + d')
          ((h XOR shift_mix (unaligned_load bm2 p2 * mul) * mul) * mul)"
      using ne(2) by (subst hash_loop.simps) (simp add: Let_def e)
    show ?thesis unfolding s1 s2 ld by (rule ih)
  qed
qed

lemma hash_bytes_cong:
  assumes "\<forall>a<unat l. bm1 (p1 + a) = bm2 (p2 + a)"
  shows "hash_bytes bm1 p1 l seed = hash_bytes bm2 p2 l seed
     \<and> (\<exists>r. hash_bytes bm1 p1 l seed = Some r)"
proof -
  let ?d = "unat (l AND NOT 7)"
  let ?t = "l AND 7"
  have sp: "?d + unat ?t = unat l" by (rule unat_split_len)
  have "\<forall>a<?d. bm1 (p1 + a) = bm2 (p2 + a)" using assms sp by simp
  with aligned_dvd [of l]
  have lp: "hash_loop bm1 p1 (p1 + ?d) h = hash_loop bm2 p2 (p2 + ?d) h
      \<and> (\<exists>r. hash_loop bm1 p1 (p1 + ?d) h = Some r)" for h
    by (rule hash_loop_cong)
  have tl: "load_bytes bm1 (p1 + ?d) (uint ?t) = load_bytes bm2 (p2 + ?d) (uint ?t)" if "?t \<noteq> 0"
  proof -
    from that have pos: "0 < unat ?t" by (simp add: unat_gt_0)
    have ui: "uint ?t = int (unat ?t)" by (rule uint_nat)
    from pos have n: "0 \<le> uint ?t - 1" unfolding ui by linarith
    have "\<forall>a\<le>nat (uint ?t - 1). bm1 (p1 + ?d + a) = bm2 (p2 + ?d + a)"
    proof (intro allI impI)
      fix a assume "a \<le> nat (uint ?t - 1)"
      then have "a < unat ?t" using pos unfolding ui by linarith
      then have "?d + a < unat l" using sp by simp
      with assms have "bm1 (p1 + (?d + a)) = bm2 (p2 + (?d + a))" by blast
      then show "bm1 (p1 + ?d + a) = bm2 (p2 + ?d + a)" by (simp add: add.assoc)
    qed
    with n show ?thesis unfolding load_bytes_def by (rule load_bytes_loop_cong)
  qed
  from lp [of "seed XOR (l * mul)"] obtain r
    where r1: "hash_loop bm1 p1 (p1 + ?d) (seed XOR (l * mul)) = Some r"
    by blast
  with lp [of "seed XOR (l * mul)"]
  have r2: "hash_loop bm2 p2 (p2 + ?d) (seed XOR (l * mul)) = Some r"
    by simp
  show ?thesis
    unfolding hash_bytes_def Let_def r1 r2 using tl by auto
qed

lemma byte_image_offset:
  assumes "0 < k"
  shows "byte_image k repr mem (k * p + a) = repr (mem (p + a div k)) (a mod k)"
  using assms by (simp add: byte_image_def)

lemma unat_mult_of_nat_le:
  fixes n :: size_type
  shows "unat (n * of_nat k) \<le> unat n * k"
proof -
  have "unat (n * of_nat k) = (unat n * unat (of_nat k :: size_type)) mod 2 ^ 64"
    by (simp add: unat_word_ariths)
  also have "\<dots> \<le> unat n * unat (of_nat k :: size_type)" by (rule mod_less_eq_dividend)
  also have "unat (of_nat k :: size_type) \<le> k" by (simp add: unat_of_nat)
  finally show ?thesis by simp
qed

text \<open>
  C8. Two views of equal \<^verbatim>\<open>length()\<close> whose characters are pairwise equal have the same hash,
  whatever their flags and wherever they point, and the hash function returns on them.
  This holds for every character width, object representation and seed.
\<close>

theorem hash_sv_content:
  assumes "0 < sizeof_CharT"
    and "length_sv v = length_sv w"
    and "\<forall>i<unat (length_sv v). mem (str v + i) = mem (str w + i)"
  shows "hash_sv sizeof_CharT repr mem seed v = hash_sv sizeof_CharT repr mem seed w
     \<and> (\<exists>h. hash_sv sizeof_CharT repr mem seed v = Some h)"
proof -
  let ?k = sizeof_CharT
  let ?l = "length_sv v * of_nat ?k"
  have "\<forall>a<unat ?l. byte_image ?k repr mem (?k * str v + a) = byte_image ?k repr mem (?k * str w + a)"
  proof (intro allI impI)
    fix a assume "a < unat ?l"
    also have "unat ?l \<le> unat (length_sv v) * ?k" by (rule unat_mult_of_nat_le)
    finally have "a div ?k < unat (length_sv v)"
      using assms(1) by (simp add: less_mult_imp_div_less)
    with assms(3) have "mem (str v + a div ?k) = mem (str w + a div ?k)" by blast
    then show "byte_image ?k repr mem (?k * str v + a) = byte_image ?k repr mem (?k * str w + a)"
      by (simp only: byte_image_offset [OF assms(1)])
  qed
  then have "hash_bytes (byte_image ?k repr mem) (?k * str v) ?l seed =
      hash_bytes (byte_image ?k repr mem) (?k * str w) ?l seed
      \<and> (\<exists>r. hash_bytes (byte_image ?k repr mem) (?k * str v) ?l seed = Some r)"
    by (rule hash_bytes_cong)
  then show ?thesis unfolding hash_sv_def assms(2) [symmetric] .
qed

theorem hash_sv_content_witness:
  "(0::nat) < 1
   \<and> length_sv abc_view = length_sv (sv_ptr_len 20 3)
   \<and> test_safederef_bit (len abc_view)
   \<and> \<not> test_safederef_bit (len (sv_ptr_len 20 3))
   \<and> buffer_at 16 (abc @ abc) (str abc_view + 0) = buffer_at 16 (abc @ abc) (str (sv_ptr_len 20 3) + 0)
   \<and> buffer_at 16 (abc @ abc) (str abc_view + 1) = buffer_at 16 (abc @ abc) (str (sv_ptr_len 20 3) + 1)
   \<and> buffer_at 16 (abc @ abc) (str abc_view + 2) = buffer_at 16 (abc @ abc) (str (sv_ptr_len 20 3) + 2)
   \<and> hash_sv 1 (\<lambda>c j. c) (buffer_at 16 (abc @ abc)) 0xc70f6907 abc_view
       = hash_sv 1 (\<lambda>c j. c) (buffer_at 16 (abc @ abc)) 0xc70f6907 (sv_ptr_len 20 3)
   \<and> (\<exists>h. hash_sv 1 (\<lambda>c j. c) (buffer_at 16 (abc @ abc)) 0xc70f6907 abc_view = Some h)"
proof -
  let ?m = "buffer_at 16 (abc @ abc)"
  have k: "(0::nat) < 1" by simp
  have l: "length_sv abc_view = length_sv (sv_ptr_len 20 3)" by code_simp
  have l3: "unat (length_sv abc_view) = 3" by code_simp
  have f: "test_safederef_bit (len abc_view)" "\<not> test_safederef_bit (len (sv_ptr_len 20 3))"
    by code_simp+
  have e0: "?m (str abc_view + 0) = ?m (str (sv_ptr_len 20 3) + 0)"
    and e1: "?m (str abc_view + 1) = ?m (str (sv_ptr_len 20 3) + 1)"
    and e2: "?m (str abc_view + 2) = ?m (str (sv_ptr_len 20 3) + 2)"
    by code_simp+
  have c: "\<forall>i<unat (length_sv abc_view). ?m (str abc_view + i) = ?m (str (sv_ptr_len 20 3) + i)"
  proof (intro allI impI)
    fix i assume "i < unat (length_sv abc_view)"
    then have "i = 0 \<or> i = 1 \<or> i = 2" unfolding l3 by linarith
    with e0 e1 e2 show "?m (str abc_view + i) = ?m (str (sv_ptr_len 20 3) + i)" by blast
  qed
  from hash_sv_content [OF k l c, of "\<lambda>c j. c" "0xc70f6907"] k l f e0 e1 e2
  show ?thesis by blast
qed

end
